theory Spec2Isabelle
  imports Main
begin

section \<open>The shelf packer as a state-passing model\<close>

text \<open>
  The model follows the TypeScript class \<open>ShelfPack\<close> and its helpers \<open>Bin\<close> and
  \<open>Shelf\<close>. JavaScript numbers are modelled as mathematical integers (\<open>int\<close>): every
  statement below is about integral widths, heights and coordinates in the range where
  JavaScript arithmetic is exact. The initial value \<open>Infinity\<close> of \<open>best.waste\<close> is
  \<open>None\<close>, the sentinel index \<open>-1\<close> of \<open>best.freebin\<close> and \<open>best.shelf\<close> is
  \<open>None\<close> as well.

  Bins are JavaScript objects that the registry, the free pool and the caller share by
  reference; \<open>ref\<close> and \<open>unref\<close> mutate them in place. The model therefore keeps
  an object store \<open>heap\<close> (a list of bins; a reference is an index into it) next to the
  fields of the class. Every bin object in the store was created by the packer, and a
  reference is meaningful only below the length of the store. Shelves are only reachable
  through the packer and are kept by value.

  The registry is a finite map from property keys to references. Keys that name a
  property every JavaScript object inherits (such as \<open>constructor\<close>) are outside the
  model.
\<close>

subsection \<open>Identifiers and registry keys\<close>

datatype ident = IdNum int | IdStr string

text \<open>
  The registry \<open>this.bins\<close> is a JavaScript object: a numeric id is converted to its
  decimal string when used as a property key, so the number \<open>1\<close> and the string
  \<open>"1"\<close> name the same entry.
\<close>

definition digit_char :: "nat \<Rightarrow> char" where
  "digit_char d = ''0123456789'' ! d"

fun digits :: "nat \<Rightarrow> string" where
  "digits n = (if n < 10 then [digit_char n] else digits (n div 10) @ [digit_char (n mod 10)])"

declare digits.simps [simp del]

definition key_of_int :: "int \<Rightarrow> string" where
  "key_of_int n = (if n < 0 then CHR ''-'' # digits (nat (- n)) else digits (nat n))"

fun key_of :: "ident \<Rightarrow> string" where
  "key_of (IdNum n) = key_of_int n"
| "key_of (IdStr s) = s"

subsection \<open>Bin and Shelf\<close>

record Bin =
  bin_id :: ident
  bin_x :: int
  bin_y :: int
  bin_w :: int
  bin_h :: int
  maxw :: int
  maxh :: int
  refcount :: int

definition new_Bin :: "ident \<Rightarrow> int \<Rightarrow> int \<Rightarrow> int \<Rightarrow> int \<Rightarrow> int \<Rightarrow> int \<Rightarrow> int \<Rightarrow> Bin" where
  "new_Bin i x y w h mw mh rc =
     \<lparr>bin_id = i, bin_x = x, bin_y = y, bin_w = w, bin_h = h, maxw = mw, maxh = mh, refcount = rc\<rparr>"

record Shelf =
  shelf_y :: int
  shelf_w :: int
  shelf_h :: int
  shelf_x :: int
  shelf_free :: int

definition new_Shelf :: "int \<Rightarrow> int \<Rightarrow> int \<Rightarrow> Shelf" where
  "new_Shelf y width height =
     \<lparr>shelf_y = y, shelf_w = width, shelf_h = height, shelf_x = 0, shelf_free = width\<rparr>"

text \<open>\<open>Shelf.alloc\<close>: \<open>None\<close> is the \<open>null\<close> result; otherwise the updated shelf and the new bin.\<close>

definition Shelf_alloc :: "Shelf \<Rightarrow> int \<Rightarrow> int \<Rightarrow> ident \<Rightarrow> (Shelf \<times> Bin) option" where
  "Shelf_alloc sh w h i =
     (if w > shelf_free sh \<or> h > shelf_h sh then None
      else Some (sh\<lparr>shelf_x := shelf_x sh + w, shelf_free := shelf_free sh - w\<rparr>,
                 new_Bin i (shelf_x sh) (shelf_y sh) w h w (shelf_h sh) 0))"

definition Shelf_resize :: "Shelf \<Rightarrow> int \<Rightarrow> Shelf" where
  "Shelf_resize sh w = sh\<lparr>shelf_free := shelf_free sh + (w - shelf_w sh), shelf_w := w\<rparr>"

subsection \<open>The packer\<close>

text \<open>
  A slot of the \<open>stats\<close> histogram holds a JavaScript number, which can become \<open>NaN\<close>
  when \<open>unref\<close> decrements a missing entry.
\<close>

datatype jsnum = Num int | NaN

record ShelfPack =
  autoResize :: bool
  shelves :: "Shelf list"
  freebins :: "nat list"
  stats :: "int \<rightharpoonup> jsnum"
  bins :: "string \<rightharpoonup> nat"
  maxId :: int
  sp_w :: int
  sp_h :: int
  heap :: "Bin list"

text \<open>The constructor. The store starts empty: no bin object exists yet.\<close>

definition new_ShelfPack :: "int \<Rightarrow> int \<Rightarrow> bool \<Rightarrow> ShelfPack" where
  "new_ShelfPack width height ar =
     \<lparr>autoResize = ar, shelves = [], freebins = [], stats = Map.empty, bins = Map.empty,
      maxId = 0, sp_w = width, sp_h = height, heap = []\<rparr>"

definition getBin :: "ShelfPack \<Rightarrow> ident \<Rightarrow> nat option" where
  "getBin s i = bins s (key_of i)"

text \<open>\<open>x | 0\<close>: \<open>undefined\<close> and \<open>NaN\<close> give 0, a number is wrapped to a signed 32-bit integer.\<close>

definition to_int32 :: "int \<Rightarrow> int" where
  "to_int32 n = (n + 2147483648) mod 4294967296 - 2147483648"

fun or0 :: "jsnum option \<Rightarrow> int" where
  "or0 None = 0"
| "or0 (Some NaN) = 0"
| "or0 (Some (Num n)) = to_int32 n"

text \<open>\<open>x--\<close> stored back: \<open>undefined\<close> and \<open>NaN\<close> give \<open>NaN\<close>.\<close>

fun decrement :: "jsnum option \<Rightarrow> jsnum" where
  "decrement (Some (Num n)) = Num (n - 1)"
| "decrement _ = NaN"

definition ref :: "ShelfPack \<Rightarrow> nat \<Rightarrow> ShelfPack \<times> int" where
  "ref s a =
     (let b = heap s ! a;
          rc = refcount b + 1;
          s1 = s\<lparr>heap := (heap s)[a := b\<lparr>refcount := rc\<rparr>]\<rparr>
      in if rc = 1
         then (s1\<lparr>stats := (stats s1)(bin_h b \<mapsto> Num (or0 (stats s1 (bin_h b)) + 1))\<rparr>, rc)
         else (s1, rc))"

definition unref :: "ShelfPack \<Rightarrow> nat \<Rightarrow> ShelfPack \<times> int" where
  "unref s a =
     (let b = heap s ! a
      in if refcount b = 0 then (s, 0)
         else
           (let rc = refcount b - 1;
                s1 = s\<lparr>heap := (heap s)[a := b\<lparr>refcount := rc\<rparr>]\<rparr>
            in if rc = 0
               then (s1\<lparr>stats := (stats s1)(bin_h b \<mapsto> decrement (stats s1 (bin_h b))),
                         bins := (bins s1)(key_of (bin_id b) := None),
                         freebins := freebins s1 @ [a]\<rparr>, rc)
               else (s1, rc)))"

definition clear :: "ShelfPack \<Rightarrow> ShelfPack" where
  "clear s = s\<lparr>shelves := [], freebins := [], stats := Map.empty, bins := Map.empty, maxId := 0\<rparr>"

definition resize :: "ShelfPack \<Rightarrow> int \<Rightarrow> int \<Rightarrow> ShelfPack" where
  "resize s w h = s\<lparr>sp_w := w, sp_h := h, shelves := map (\<lambda>sh. Shelf_resize sh w) (shelves s)\<rparr>"

text \<open>The loop of \<open>shrink\<close>, with the pair \<open>(w2, h2)\<close> as its accumulator.\<close>

fun shrink_loop :: "Shelf list \<Rightarrow> int \<Rightarrow> int \<Rightarrow> int \<times> int" where
  "shrink_loop [] w2 h2 = (w2, h2)"
| "shrink_loop (sh # rest) w2 h2 =
     shrink_loop rest (max (shelf_w sh - shelf_free sh) w2) (h2 + shelf_h sh)"

definition shrink :: "ShelfPack \<Rightarrow> ShelfPack" where
  "shrink s =
     (if length (shelves s) > 0
      then (case shrink_loop (shelves s) 0 0 of (w2, h2) \<Rightarrow> resize s w2 h2)
      else s)"

subsection \<open>Allocation\<close>

text \<open>
  \<open>AllocFailed\<close> is the \<open>Error\<close> thrown by \<open>allocShelf\<close>; \<open>TypeError\<close> is what
  JavaScript raises when \<open>allocShelf\<close> or \<open>allocFreebin\<close> is handed an index outside
  its array and then reads a property of \<open>undefined\<close>.
\<close>

datatype error = AllocFailed | TypeError

definition allocFreebin :: "ShelfPack \<Rightarrow> nat \<Rightarrow> int \<Rightarrow> int \<Rightarrow> ident \<Rightarrow> error + ShelfPack \<times> nat" where
  "allocFreebin s index w h i =
     (if index < length (freebins s)
      then
        (let bin = heap s ! (freebins s ! index);
             newBin = new_Bin i (bin_x bin) (bin_y bin) w h (maxw bin) (maxh bin) 0;
             a = length (heap s);
             s1 = s\<lparr>freebins := take index (freebins s) @ drop (Suc index) (freebins s),
                     heap := heap s @ [newBin],
                     bins := (bins s)(key_of i \<mapsto> a)\<rparr>
         in Inr (fst (ref s1 a), a))
      else Inl TypeError)"

definition allocShelf :: "ShelfPack \<Rightarrow> nat \<Rightarrow> int \<Rightarrow> int \<Rightarrow> ident \<Rightarrow> error + ShelfPack \<times> nat" where
  "allocShelf s index w h i =
     (if index < length (shelves s)
      then
        (case Shelf_alloc (shelves s ! index) w h i of
           None \<Rightarrow> Inl AllocFailed
         | Some (sh, bin) \<Rightarrow>
             (let a = length (heap s);
                  s1 = s\<lparr>shelves := (shelves s)[index := sh],
                          heap := heap s @ [bin],
                          bins := (bins s)(key_of i \<mapsto> a)\<rparr>
              in Inr (fst (ref s1 a), a)))
      else Inl TypeError)"

subsection \<open>packOne\<close>

record best =
  freebin :: "nat option"
  shelf :: "nat option"
  waste :: "int option"

definition best0 :: best where
  "best0 = \<lparr>freebin = None, shelf = None, waste = None\<rparr>"

text \<open>\<open>waste < best.waste\<close>, where \<open>best.waste\<close> may still be \<open>Infinity\<close>.\<close>

fun less_waste :: "int \<Rightarrow> int option \<Rightarrow> bool" where
  "less_waste v None = True"
| "less_waste v (Some u) = (v < u)"

text \<open>
  The first loop of \<open>packOne\<close> over the free bins, from index \<open>i\<close> on. \<open>Inl i\<close> is the
  early return through \<open>allocFreebin(i, ...)\<close>; \<open>Inr b\<close> is the record \<open>best\<close> when the
  loop runs to its end.
\<close>

fun scan_freebins :: "Bin list \<Rightarrow> nat \<Rightarrow> int \<Rightarrow> int \<Rightarrow> best \<Rightarrow> nat + best" where
  "scan_freebins [] i w h b = Inr b"
| "scan_freebins (bin # rest) i w h b =
     (if h = maxh bin \<and> w = maxw bin then Inl i
      else if h > maxh bin \<or> w > maxw bin then scan_freebins rest (Suc i) w h b
      else if h \<le> maxh bin \<and> w \<le> maxw bin
           then (if less_waste (maxw bin * maxh bin - w * h) (waste b)
                 then scan_freebins rest (Suc i) w h
                        (b\<lparr>waste := Some (maxw bin * maxh bin - w * h), freebin := Some i\<rparr>)
                 else scan_freebins rest (Suc i) w h b)
           else scan_freebins rest (Suc i) w h b)"

text \<open>
  The second loop, over the shelves, with the running sum \<open>y\<close> of the shelf heights.
  \<open>Inl i\<close> is the early return through \<open>allocShelf(i, ...)\<close>.
\<close>

fun scan_shelves :: "Shelf list \<Rightarrow> nat \<Rightarrow> int \<Rightarrow> int \<Rightarrow> best \<Rightarrow> int \<Rightarrow> nat + best \<times> int" where
  "scan_shelves [] i w h b y = Inr (b, y)"
| "scan_shelves (sh # rest) i w h b y =
     (if w > shelf_free sh then scan_shelves rest (Suc i) w h b (y + shelf_h sh)
      else if h = shelf_h sh then Inl i
      else if h > shelf_h sh then scan_shelves rest (Suc i) w h b (y + shelf_h sh)
      else if h < shelf_h sh
           then (if less_waste ((shelf_h sh - h) * w) (waste b)
                 then scan_shelves rest (Suc i) w h
                        (b\<lparr>freebin := None, waste := Some ((shelf_h sh - h) * w), shelf := Some i\<rparr>)
                        (y + shelf_h sh)
                 else scan_shelves rest (Suc i) w h b (y + shelf_h sh))
           else scan_shelves rest (Suc i) w h b (y + shelf_h sh))"

text \<open>The new dimensions chosen by the \<open>autoResize\<close> branch.\<close>

definition grow_w :: "ShelfPack \<Rightarrow> int \<Rightarrow> int" where
  "grow_w s w = (if sp_w s \<le> sp_h s \<or> w > sp_w s then max w (sp_w s) * 2 else sp_w s)"

definition grow_h :: "ShelfPack \<Rightarrow> int \<Rightarrow> int" where
  "grow_h s h = (if sp_h s < sp_w s \<or> h > sp_h s then max h (sp_h s) * 2 else sp_h s)"

text \<open>
  One activation of \<open>packOne\<close> up to its recursive call. \<open>Done r\<close> is a return (or a
  throw, \<open>Inl\<close>) with the state and the bin or \<open>null\<close>; \<open>Retry s' i\<close> is the call
  \<open>this.packOne(w, h, finalId)\<close> after \<open>this.resize(w2, h2)\<close>.
\<close>

datatype outcome = Done "error + ShelfPack \<times> nat option" | Retry ShelfPack ident

definition returned :: "error + ShelfPack \<times> nat \<Rightarrow> outcome" where
  "returned r = (case r of Inl e \<Rightarrow> Done (Inl e) | Inr (s, a) \<Rightarrow> Done (Inr (s, Some a)))"

text \<open>The part of \<open>packOne\<close> after the identity lookup, with \<open>finalId\<close> settled.\<close>

definition place :: "ShelfPack \<Rightarrow> int \<Rightarrow> int \<Rightarrow> ident \<Rightarrow> outcome" where
  "place s w h finalId =
     (case scan_freebins (map (\<lambda>a. heap s ! a) (freebins s)) 0 w h best0 of
        Inl i \<Rightarrow> returned (allocFreebin s i w h finalId)
      | Inr b1 \<Rightarrow>
          (case scan_shelves (shelves s) 0 w h b1 0 of
             Inl i \<Rightarrow> returned (allocShelf s i w h finalId)
           | Inr (b2, y) \<Rightarrow>
               (case freebin b2 of
                  Some i \<Rightarrow> returned (allocFreebin s i w h finalId)
                | None \<Rightarrow>
                    (case shelf b2 of
                       Some i \<Rightarrow> returned (allocShelf s i w h finalId)
                     | None \<Rightarrow>
                         if h \<le> sp_h s - y \<and> w \<le> sp_w s
                         then returned (allocShelf (s\<lparr>shelves := shelves s @ [new_Shelf y (sp_w s) h]\<rparr>)
                                          (length (shelves s)) w h finalId)
                         else if autoResize s
                              then Retry (resize s (grow_w s w) (grow_h s h)) finalId
                              else Done (Inr (s, None))))))"

definition packOne_try :: "ShelfPack \<Rightarrow> int \<Rightarrow> int \<Rightarrow> ident option \<Rightarrow> outcome" where
  "packOne_try s w h i =
     (case i of
        Some i' \<Rightarrow>
          (case getBin s i' of
             Some a \<Rightarrow> Done (Inr (fst (ref s a), Some a))
           | None \<Rightarrow> place s w h i')
      | None \<Rightarrow> place (s\<lparr>maxId := maxId s + 1\<rparr>) w h (IdNum (maxId s + 1)))"

text \<open>
  \<open>packOne\<close> itself. The retry after growing the container is a recursive call that
  need not return (doubling a width of 0 changes nothing, for instance), so the
  function is partial: \<open>None\<close> is a call that never returns.
\<close>

partial_function (option) packOne ::
  "ShelfPack \<Rightarrow> int \<Rightarrow> int \<Rightarrow> ident option \<Rightarrow> (error + ShelfPack \<times> nat option) option" where
  "packOne s w h i =
     (case packOne_try s w h i of
        Done r \<Rightarrow> Some r
      | Retry s' finalId \<Rightarrow> packOne s' w h (Some finalId))"

subsection \<open>pack\<close>

text \<open>
  An input record of \<open>pack\<close>. \<open>in_w\<close> and \<open>in_h\<close> are \<open>None\<close> when the property is
  missing or not a number; \<open>in_x\<close>, \<open>in_y\<close> and \<open>in_id\<close> are \<open>None\<close> when the record has
  no such property. Input records are the caller's own objects, distinct from the bins
  of the packer.
\<close>

record BinInput =
  in_w :: "int option"
  in_h :: "int option"
  in_id :: "ident option"
  in_x :: "int option"
  in_y :: "int option"

text \<open>
  The loop of \<open>pack\<close>: \<open>seen\<close> are the input records already visited (as they are after
  the writes of \<open>inPlace\<close>), \<open>results\<close> the array returned at the end.
\<close>

fun pack_loop ::
  "ShelfPack \<Rightarrow> BinInput list \<Rightarrow> bool \<Rightarrow> BinInput list \<Rightarrow> nat list
     \<Rightarrow> (error + ShelfPack \<times> BinInput list \<times> nat list) option" where
  "pack_loop s [] inPlace seen results = Some (Inr (s, seen, results))"
| "pack_loop s (b # rest) inPlace seen results =
     (case (in_w b, in_h b) of
        (Some w, Some h) \<Rightarrow>
          (case packOne s w h (in_id b) of
             None \<Rightarrow> None
           | Some (Inl e) \<Rightarrow> Some (Inl e)
           | Some (Inr (s1, None)) \<Rightarrow> pack_loop s1 rest inPlace (seen @ [b]) results
           | Some (Inr (s1, Some a)) \<Rightarrow>
               if inPlace
               then (if in_x b \<noteq> None \<and> in_y b \<noteq> None
                     then pack_loop s1 rest inPlace
                            (seen @ [b\<lparr>in_x := Some (bin_x (heap s1 ! a)),
                                       in_y := Some (bin_y (heap s1 ! a)),
                                       in_id := Some (bin_id (heap s1 ! a))\<rparr>])
                            (results @ [a])
                     else pack_loop s1 rest inPlace (seen @ [b]) (results @ [a]))
               else pack_loop s1 rest inPlace (seen @ [b]) results)
      | _ \<Rightarrow> pack_loop s rest inPlace (seen @ [b]) results)"

definition pack ::
  "ShelfPack \<Rightarrow> BinInput list \<Rightarrow> bool \<Rightarrow> (error + ShelfPack \<times> BinInput list \<times> nat list) option" where
  "pack s items inPlace =
     (case pack_loop s items inPlace [] [] of
        None \<Rightarrow> None
      | Some (Inl e) \<Rightarrow> Some (Inl e)
      | Some (Inr (s1, items', results)) \<Rightarrow> Some (Inr (shrink s1, items', results)))"

section \<open>What the specification talks about\<close>

subsection \<open>Rectangles, registered bins, reachable states\<close>

text \<open>
  Two bins overlap when their rectangles \<open>(x, y, w, h)\<close> share a region of positive
  area. \<open>footprint_overlap\<close> is the same test on the footprints \<open>(x, y, maxw, maxh)\<close>.
\<close>

definition rect_overlap :: "Bin \<Rightarrow> Bin \<Rightarrow> bool" where
  "rect_overlap a b \<longleftrightarrow>
     max (bin_x a) (bin_x b) < min (bin_x a + bin_w a) (bin_x b + bin_w b)
     \<and> max (bin_y a) (bin_y b) < min (bin_y a + bin_h a) (bin_y b + bin_h b)"


text \<open>
  A bin object is registered when the registry holds it under its own id:
  \<open>getBin(bin.id) === bin\<close>.
\<close>

definition registered :: "ShelfPack \<Rightarrow> nat \<Rightarrow> bool" where
  "registered s a \<longleftrightarrow> a < length (heap s) \<and> getBin s (bin_id (heap s ! a)) = Some a"

text \<open>Any bin object that exists can be handed to \<open>ref\<close> and \<open>unref\<close>.\<close>

definition allocated :: "ShelfPack \<Rightarrow> nat \<Rightarrow> bool" where
  "allocated s a \<longleftrightarrow> a < length (heap s)"

definition any_size :: "int \<Rightarrow> int \<Rightarrow> bool" where
  "any_size w h \<longleftrightarrow> True"

definition nonneg_size :: "int \<Rightarrow> int \<Rightarrow> bool" where
  "nonneg_size w h \<longleftrightarrow> 0 \<le> w \<and> 0 \<le> h"

definition sizes_ok :: "(int \<Rightarrow> int \<Rightarrow> bool) \<Rightarrow> BinInput list \<Rightarrow> bool" where
  "sizes_ok okSize items \<longleftrightarrow>
     list_all (\<lambda>b. case (in_w b, in_h b) of (Some w, Some h) \<Rightarrow> okSize w h | _ \<Rightarrow> True) items"

text \<open>
  The states a caller can reach from a freshly constructed packer through the public
  operations, where \<open>okSize\<close> says which sizes are requested and \<open>okBin\<close> which bin
  objects are handed to \<open>ref\<close> and \<open>unref\<close>. A call that throws or never returns
  leads nowhere. \<open>getBin\<close> does not change the state.
\<close>

inductive reach :: "(int \<Rightarrow> int \<Rightarrow> bool) \<Rightarrow> (ShelfPack \<Rightarrow> nat \<Rightarrow> bool) \<Rightarrow> ShelfPack \<Rightarrow> bool"
  for okSize :: "int \<Rightarrow> int \<Rightarrow> bool" and okBin :: "ShelfPack \<Rightarrow> nat \<Rightarrow> bool" where
  reach_new: "reach okSize okBin (new_ShelfPack width height ar)"
| reach_packOne:
    "reach okSize okBin s \<Longrightarrow> okSize w h \<Longrightarrow> packOne s w h i = Some (Inr (s', r))
     \<Longrightarrow> reach okSize okBin s'"
| reach_pack:
    "reach okSize okBin s \<Longrightarrow> sizes_ok okSize items
     \<Longrightarrow> pack s items inPlace = Some (Inr (s', items', results))
     \<Longrightarrow> reach okSize okBin s'"
| reach_ref: "reach okSize okBin s \<Longrightarrow> okBin s a \<Longrightarrow> reach okSize okBin (fst (ref s a))"
| reach_unref: "reach okSize okBin s \<Longrightarrow> okBin s a \<Longrightarrow> reach okSize okBin (fst (unref s a))"
| reach_resize: "reach okSize okBin s \<Longrightarrow> reach okSize okBin (resize s w h)"
| reach_shrink: "reach okSize okBin s \<Longrightarrow> reach okSize okBin (shrink s)"
| reach_clear: "reach okSize okBin s \<Longrightarrow> reach okSize okBin (clear s)"

text \<open>Every sequence of public operations, on any sizes and any existing bin objects.\<close>

definition reachable :: "ShelfPack \<Rightarrow> bool" where
  "reachable = reach any_size allocated"

text \<open>The same, with \<open>ref\<close> and \<open>unref\<close> applied to registered bins only.\<close>

definition reachable_registered :: "ShelfPack \<Rightarrow> bool" where
  "reachable_registered = reach any_size registered"

text \<open>Moreover, only non-negative widths and heights are requested.\<close>

definition reachable_disciplined :: "ShelfPack \<Rightarrow> bool" where
  "reachable_disciplined = reach nonneg_size registered"


text \<open>
  The registry and the free pool are consistent: every registry entry is an existing
  bin, stored under the key of its own id, with \<open>refcount \<ge> 1\<close>; every bin of the free
  pool exists and has \<open>refcount = 0\<close>.
\<close>

definition registry_ok :: "ShelfPack \<Rightarrow> bool" where
  "registry_ok s \<longleftrightarrow>
     (\<forall>k a. bins s k = Some a
        \<longrightarrow> a < length (heap s) \<and> key_of (bin_id (heap s ! a)) = k \<and> 1 \<le> refcount (heap s ! a))"





subsection \<open>The geometry kept by the packer\<close>



text \<open>What the geometry of a bin consists of: everything but its id and its \<open>refcount\<close>.\<close>

definition shape :: "Bin \<Rightarrow> int \<times> int \<times> int \<times> int \<times> int \<times> int" where
  "shape b = (bin_x b, bin_y b, bin_w b, bin_h b, maxw b, maxh b)"




subsection \<open>The selection rule of packOne in the specification's words\<close>

datatype choice = FromFreebin nat | FromShelf nat

text \<open>
  The winner of a sequence of candidates with their waste: a later candidate replaces
  the current one only when its waste is strictly smaller, so the first seen wins ties.
\<close>

fun first_min_from :: "('a \<times> int) option \<Rightarrow> ('a \<times> int) list \<Rightarrow> ('a \<times> int) option" where
  "first_min_from cur [] = cur"
| "first_min_from cur (c # cs) =
     first_min_from (case cur of None \<Rightarrow> Some c
                     | Some m \<Rightarrow> if snd c < snd m then Some c else Some m) cs"

definition first_min :: "('a \<times> int) list \<Rightarrow> ('a \<times> int) option" where
  "first_min cs = first_min_from None cs"

text \<open>The first free bin, in pool order, whose footprint is exactly \<open>(w, h)\<close>.\<close>

definition exact_freebin :: "Bin list \<Rightarrow> int \<Rightarrow> int \<Rightarrow> nat option" where
  "exact_freebin fbs w h =
     map_option fst (find (\<lambda>(i, bin). maxw bin = w \<and> maxh bin = h) (enumerate 0 fbs))"

text \<open>The first shelf with enough free width whose height is exactly \<open>h\<close>.\<close>

definition exact_shelf :: "Shelf list \<Rightarrow> int \<Rightarrow> int \<Rightarrow> nat option" where
  "exact_shelf shs w h =
     map_option fst (find (\<lambda>(i, sh). w \<le> shelf_free sh \<and> shelf_h sh = h) (enumerate 0 shs))"

text \<open>
  The candidates of the waste comparison, in the order in which they are seen: the
  free bins that are large enough, then the taller shelves with enough free width.
\<close>

definition freebin_candidates :: "Bin list \<Rightarrow> int \<Rightarrow> int \<Rightarrow> (choice \<times> int) list" where
  "freebin_candidates fbs w h =
     map (\<lambda>(i, bin). (FromFreebin i, maxw bin * maxh bin - w * h))
       (filter (\<lambda>(i, bin). w \<le> maxw bin \<and> h \<le> maxh bin) (enumerate 0 fbs))"

definition shelf_candidates :: "Shelf list \<Rightarrow> int \<Rightarrow> int \<Rightarrow> (choice \<times> int) list" where
  "shelf_candidates shs w h =
     map (\<lambda>(i, sh). (FromShelf i, (shelf_h sh - h) * w))
       (filter (\<lambda>(i, sh). w \<le> shelf_free sh \<and> h < shelf_h sh) (enumerate 0 shs))"

definition spec_select :: "Bin list \<Rightarrow> Shelf list \<Rightarrow> int \<Rightarrow> int \<Rightarrow> choice option" where
  "spec_select fbs shs w h =
     (case exact_freebin fbs w h of
        Some i \<Rightarrow> Some (FromFreebin i)
      | None \<Rightarrow>
          (case exact_shelf shs w h of
             Some j \<Rightarrow> Some (FromShelf j)
           | None \<Rightarrow> map_option fst (first_min (freebin_candidates fbs w h @ shelf_candidates shs w h))))"

text \<open>
  The id a call of \<open>packOne\<close> works with (\<open>finalId\<close>), the state after it is settled,
  and the allocation a choice stands for.
\<close>

definition final_id :: "ShelfPack \<Rightarrow> ident option \<Rightarrow> ident" where
  "final_id s i = (case i of Some i' \<Rightarrow> i' | None \<Rightarrow> IdNum (maxId s + 1))"

definition with_id :: "ShelfPack \<Rightarrow> ident option \<Rightarrow> ShelfPack" where
  "with_id s i = (case i of Some i' \<Rightarrow> s | None \<Rightarrow> s\<lparr>maxId := maxId s + 1\<rparr>)"




subsection \<open>Repeated unref\<close>

fun unref_times :: "nat \<Rightarrow> ShelfPack \<Rightarrow> nat \<Rightarrow> ShelfPack" where
  "unref_times 0 s a = s"
| "unref_times (Suc n) s a = unref_times n (fst (unref s a)) a"

subsection \<open>Example states\<close>

text \<open>A fresh 64 by 64 packer after \<open>packOne(10, 10)\<close>: one shelf, one bin with id 1.\<close>

definition one_bin_state :: ShelfPack where
  "one_bin_state =
     \<lparr>autoResize = False,
      shelves = [\<lparr>shelf_y = 0, shelf_w = 64, shelf_h = 10, shelf_x = 10, shelf_free = 54\<rparr>],
      freebins = [], stats = [10 \<mapsto> Num 1], bins = [''1'' \<mapsto> 0], maxId = 1,
      sp_w = 64, sp_h = 64,
      heap = [\<lparr>bin_id = IdNum 1, bin_x = 0, bin_y = 0, bin_w = 10, bin_h = 10,
                maxw = 10, maxh = 10, refcount = 1\<rparr>]\<rparr>"

text \<open>The same packer after \<open>unref\<close> of that bin: the bin is in the free pool.\<close>

definition freed_state :: ShelfPack where
  "freed_state =
     \<lparr>autoResize = False,
      shelves = [\<lparr>shelf_y = 0, shelf_w = 64, shelf_h = 10, shelf_x = 10, shelf_free = 54\<rparr>],
      freebins = [0], stats = [10 \<mapsto> Num 0], bins = Map.empty, maxId = 1,
      sp_w = 64, sp_h = 64,
      heap = [\<lparr>bin_id = IdNum 1, bin_x = 0, bin_y = 0, bin_w = 10, bin_h = 10,
                maxw = 10, maxh = 10, refcount = 0\<rparr>]\<rparr>"








text \<open>
  A packer of width 0 and height 4 with \<open>autoResize\<close>, after \<open>packOne(0, 3)\<close>: for a
  request of height 4 nothing fits, and growing changes neither dimension.
\<close>

definition stuck_state :: ShelfPack where
  "stuck_state =
     \<lparr>autoResize = True,
      shelves = [\<lparr>shelf_y = 0, shelf_w = 0, shelf_h = 3, shelf_x = 0, shelf_free = 0\<rparr>],
      freebins = [], stats = [3 \<mapsto> Num 1], bins = [''1'' \<mapsto> 0], maxId = 1,
      sp_w = 0, sp_h = 4,
      heap = [\<lparr>bin_id = IdNum 1, bin_x = 0, bin_y = 0, bin_w = 0, bin_h = 3,
                maxw = 0, maxh = 3, refcount = 1\<rparr>]\<rparr>"

text \<open>An input record of \<open>pack\<close> with a width and a height only: \<open>{w: 10, h: 10}\<close>.\<close>

definition plain_10x10 :: BinInput where
  "plain_10x10 = \<lparr>in_w = Some 10, in_h = Some 10, in_id = None, in_x = None, in_y = None\<rparr>"

section \<open>Properties\<close>

lemmas run_defs =
  packOne_try_def place_def getBin_def best0_def returned_def allocShelf_def allocFreebin_def
  key_of_int_def digits.simps digit_char_def Shelf_alloc_def new_Shelf_def new_Bin_def ref_def
  unref_def Let_def resize_def Shelf_resize_def grow_w_def grow_h_def new_ShelfPack_def
  shrink_def clear_def to_int32_def

subsection \<open>What the two scans establish\<close>

lemma scan_freebins_Inl:
  "scan_freebins bs i0 w h b = Inl i \<Longrightarrow>
     \<exists>j < length bs. i = i0 + j \<and> maxw (bs ! j) = w \<and> maxh (bs ! j) = h"
proof (induction bs arbitrary: i0 b)
  case Nil
  then show ?case by simp
next
  case (Cons bin rest)
  show ?case
  proof (cases "h = maxh bin \<and> w = maxw bin")
    case True
    with Cons.prems have "i = i0 + 0" by simp
    with True show ?thesis by auto
  next
    case False
    then obtain b' where "scan_freebins rest (Suc i0) w h b' = Inl i"
      using Cons.prems by (auto split: if_splits)
    from Cons.IH [OF this] obtain j where
      "j < length rest" "i = Suc i0 + j" "maxw (rest ! j) = w" "maxh (rest ! j) = h"
      by blast
    then have "Suc j < length (bin # rest) \<and> i = i0 + Suc j
                \<and> maxw ((bin # rest) ! Suc j) = w \<and> maxh ((bin # rest) ! Suc j) = h"
      by simp
    then show ?thesis by blast
  qed
qed

lemma scan_freebins_Inr:
  "scan_freebins bs i0 w h b = Inr b' \<Longrightarrow>
     shelf b' = shelf b \<and>
     (\<forall>k. freebin b' = Some k \<longrightarrow>
        freebin b = Some k \<or>
        (\<exists>j < length bs. k = i0 + j \<and> w \<le> maxw (bs ! j) \<and> h \<le> maxh (bs ! j)))"
proof (induction bs arbitrary: i0 b)
  case Nil
  then show ?case by simp
next
  case (Cons bin rest)
  from Cons.prems obtain b1 where
    rec: "scan_freebins rest (Suc i0) w h b1 = Inr b'" and
    b1: "b1 = b \<or> (b1 = b\<lparr>waste := Some (maxw bin * maxh bin - w * h), freebin := Some i0\<rparr>
                   \<and> w \<le> maxw bin \<and> h \<le> maxh bin)"
    by (auto split: if_splits)
  from Cons.IH [OF rec] have
    sh: "shelf b' = shelf b1" and
    fb: "\<And>k. freebin b' = Some k \<Longrightarrow> freebin b1 = Some k \<or>
           (\<exists>j < length rest. k = Suc i0 + j \<and> w \<le> maxw (rest ! j) \<and> h \<le> maxh (rest ! j))"
    by auto
  have "shelf b' = shelf b" using sh b1 by auto
  moreover have "freebin b = Some k \<or>
        (\<exists>j < length (bin # rest). k = i0 + j \<and> w \<le> maxw ((bin # rest) ! j)
           \<and> h \<le> maxh ((bin # rest) ! j))" if "freebin b' = Some k" for k
  proof -
    from fb [OF that] show ?thesis
    proof
      assume "freebin b1 = Some k"
      with b1 have "freebin b = Some k \<or> (k = i0 + 0 \<and> w \<le> maxw bin \<and> h \<le> maxh bin)"
        by auto
      then show ?thesis by force
    next
      assume "\<exists>j < length rest. k = Suc i0 + j \<and> w \<le> maxw (rest ! j) \<and> h \<le> maxh (rest ! j)"
      then obtain j where "j < length rest" "k = Suc i0 + j" "w \<le> maxw (rest ! j)"
        "h \<le> maxh (rest ! j)" by blast
      then have "Suc j < length (bin # rest) \<and> k = i0 + Suc j
                  \<and> w \<le> maxw ((bin # rest) ! Suc j) \<and> h \<le> maxh ((bin # rest) ! Suc j)"
        by simp
      then show ?thesis by blast
    qed
  qed
  ultimately show ?case by blast
qed

lemma scan_shelves_Inl:
  "scan_shelves shs i0 w h b y = Inl i \<Longrightarrow>
     \<exists>j < length shs. i = i0 + j \<and> w \<le> shelf_free (shs ! j) \<and> h = shelf_h (shs ! j)"
proof (induction shs arbitrary: i0 b y)
  case Nil
  then show ?case by simp
next
  case (Cons sh rest)
  show ?case
  proof (cases "w \<le> shelf_free sh \<and> h = shelf_h sh")
    case True
    with Cons.prems have "i = i0 + 0" by simp
    with True show ?thesis by auto
  next
    case False
    then obtain b' y' where "scan_shelves rest (Suc i0) w h b' y' = Inl i"
      using Cons.prems by (auto split: if_splits)
    from Cons.IH [OF this] obtain j where
      "j < length rest" "i = Suc i0 + j" "w \<le> shelf_free (rest ! j)" "h = shelf_h (rest ! j)"
      by blast
    then have "Suc j < length (sh # rest) \<and> i = i0 + Suc j
                \<and> w \<le> shelf_free ((sh # rest) ! Suc j) \<and> h = shelf_h ((sh # rest) ! Suc j)"
      by simp
    then show ?thesis by blast
  qed
qed

lemma scan_shelves_Inr:
  "scan_shelves shs i0 w h b y = Inr (b', y') \<Longrightarrow>
     y' = y + sum_list (map shelf_h shs) \<and>
     (\<forall>k. freebin b' = Some k \<longrightarrow> freebin b = Some k) \<and>
     (\<forall>k. shelf b' = Some k \<longrightarrow>
        shelf b = Some k \<or>
        (\<exists>j < length shs. k = i0 + j \<and> w \<le> shelf_free (shs ! j) \<and> h < shelf_h (shs ! j)))"
proof (induction shs arbitrary: i0 b y)
  case Nil
  then show ?case by simp
next
  case (Cons sh rest)
  from Cons.prems obtain b1 where
    rec: "scan_shelves rest (Suc i0) w h b1 (y + shelf_h sh) = Inr (b', y')" and
    b1: "b1 = b \<or> (b1 = b\<lparr>freebin := None, waste := Some ((shelf_h sh - h) * w), shelf := Some i0\<rparr>
                   \<and> w \<le> shelf_free sh \<and> h < shelf_h sh)"
    by (auto split: if_splits)
  from Cons.IH [OF rec] have
    y: "y' = y + shelf_h sh + sum_list (map shelf_h rest)" and
    fb: "\<And>k. freebin b' = Some k \<Longrightarrow> freebin b1 = Some k" and
    sh: "\<And>k. shelf b' = Some k \<Longrightarrow> shelf b1 = Some k \<or>
           (\<exists>j < length rest. k = Suc i0 + j \<and> w \<le> shelf_free (rest ! j) \<and> h < shelf_h (rest ! j))"
    by auto
  have "y' = y + sum_list (map shelf_h (sh # rest))" using y by simp
  moreover have "freebin b = Some k" if "freebin b' = Some k" for k
    using fb [OF that] b1 by auto
  moreover have "shelf b = Some k \<or>
        (\<exists>j < length (sh # rest). k = i0 + j \<and> w \<le> shelf_free ((sh # rest) ! j)
           \<and> h < shelf_h ((sh # rest) ! j))" if "shelf b' = Some k" for k
  proof -
    from sh [OF that] show ?thesis
    proof
      assume "shelf b1 = Some k"
      with b1 have "shelf b = Some k \<or> (k = i0 + 0 \<and> w \<le> shelf_free sh \<and> h < shelf_h sh)"
        by auto
      then show ?thesis by force
    next
      assume "\<exists>j < length rest. k = Suc i0 + j \<and> w \<le> shelf_free (rest ! j) \<and> h < shelf_h (rest ! j)"
      then obtain j where "j < length rest" "k = Suc i0 + j" "w \<le> shelf_free (rest ! j)"
        "h < shelf_h (rest ! j)" by blast
      then have "Suc j < length (sh # rest) \<and> k = i0 + Suc j
                  \<and> w \<le> shelf_free ((sh # rest) ! Suc j) \<and> h < shelf_h ((sh # rest) ! Suc j)"
        by simp
      then show ?thesis by blast
    qed
  qed
  ultimately show ?case by blast
qed

subsection \<open>The outcomes of one activation of packOne\<close>

lemma place_cases [consumes 0, case_names freebin shelf new_shelf grow fail]:
  obtains
    (freebin) k where "k < length (freebins s)"
      "w \<le> maxw (heap s ! (freebins s ! k))" "h \<le> maxh (heap s ! (freebins s ! k))"
      "place s w h f = returned (allocFreebin s k w h f)"
  | (shelf) j where "j < length (shelves s)"
      "w \<le> shelf_free (shelves s ! j)" "h \<le> shelf_h (shelves s ! j)"
      "place s w h f = returned (allocShelf s j w h f)"
  | (new_shelf) "h \<le> sp_h s - sum_list (map shelf_h (shelves s))" "w \<le> sp_w s"
      "place s w h f =
         returned (allocShelf
           (s\<lparr>shelves := shelves s @ [new_Shelf (sum_list (map shelf_h (shelves s))) (sp_w s) h]\<rparr>)
           (length (shelves s)) w h f)"
  | (grow) "autoResize s" "place s w h f = Retry (resize s (grow_w s w) (grow_h s h)) f"
  | (fail) "place s w h f = Done (Inr (s, None))"
proof (cases "scan_freebins (map (\<lambda>a. heap s ! a) (freebins s)) 0 w h best0")
  case (Inl k)
  from scan_freebins_Inl [OF Inl] have "k < length (freebins s)"
    "w \<le> maxw (heap s ! (freebins s ! k))" "h \<le> maxh (heap s ! (freebins s ! k))"
    by auto
  moreover have "place s w h f = returned (allocFreebin s k w h f)"
    using Inl by (simp add: place_def)
  ultimately show ?thesis by (rule freebin)
next
  case (Inr b1)
  note fb = scan_freebins_Inr [OF Inr]
  show ?thesis
  proof (cases "scan_shelves (shelves s) 0 w h b1 0")
    case (Inl j)
    from scan_shelves_Inl [OF Inl] have "j < length (shelves s)"
      "w \<le> shelf_free (shelves s ! j)" "h \<le> shelf_h (shelves s ! j)"
      by auto
    moreover have "place s w h f = returned (allocShelf s j w h f)"
      using Inr Inl by (simp add: place_def)
    ultimately show ?thesis by (rule shelf)
  next
    case (Inr r)
    obtain b2 y where r: "r = (b2, y)" by (cases r)
    note sh = scan_shelves_Inr [OF Inr [unfolded r]]
    have y: "y = sum_list (map shelf_h (shelves s))" using sh by simp
    show ?thesis
    proof (cases "freebin b2")
      case (Some k)
      then have "freebin b1 = Some k" using sh by blast
      then have "k < length (freebins s)"
        "w \<le> maxw (heap s ! (freebins s ! k))" "h \<le> maxh (heap s ! (freebins s ! k))"
        using fb by (auto simp: best0_def)
      moreover have "place s w h f = returned (allocFreebin s k w h f)"
        using \<open>scan_freebins _ _ _ _ _ = Inr b1\<close> Inr r Some by (simp add: place_def)
      ultimately show ?thesis by (rule freebin)
    next
      case None
      note nofb = None
      show ?thesis
      proof (cases "shelf b2")
        case (Some j)
        have "shelf b1 = None" using fb by (simp add: best0_def)
        with Some sh have "j < length (shelves s)"
          "w \<le> shelf_free (shelves s ! j)" "h \<le> shelf_h (shelves s ! j)"
          by fastforce+
        moreover have "place s w h f = returned (allocShelf s j w h f)"
          using \<open>scan_freebins _ _ _ _ _ = Inr b1\<close> Inr r nofb Some by (simp add: place_def)
        ultimately show ?thesis by (rule shelf)
      next
        case None
        have pl: "place s w h f =
           (if h \<le> sp_h s - y \<and> w \<le> sp_w s
            then returned (allocShelf (s\<lparr>shelves := shelves s @ [new_Shelf y (sp_w s) h]\<rparr>)
                             (length (shelves s)) w h f)
            else if autoResize s then Retry (resize s (grow_w s w) (grow_h s h)) f
            else Done (Inr (s, None)))"
          using \<open>scan_freebins _ _ _ _ _ = Inr b1\<close> Inr r nofb None by (simp add: place_def)
        show ?thesis
        proof (cases "h \<le> sp_h s - y \<and> w \<le> sp_w s")
          case True
          then show ?thesis using pl y by (intro new_shelf) auto
        next
          case False
          then show ?thesis using pl by (cases "autoResize s") (auto intro: grow fail)
        qed
      qed
    qed
  qed
qed

lemma allocFreebin_eq:
  "k < length (freebins s) \<Longrightarrow>
   allocFreebin s k w h f =
     Inr (s\<lparr>freebins := take k (freebins s) @ drop (Suc k) (freebins s),
            heap := heap s @ [new_Bin f (bin_x (heap s ! (freebins s ! k))) (bin_y (heap s ! (freebins s ! k)))
                                w h (maxw (heap s ! (freebins s ! k))) (maxh (heap s ! (freebins s ! k))) 1],
            bins := (bins s)(key_of f \<mapsto> length (heap s)),
            stats := (stats s)(h \<mapsto> Num (or0 (stats s h) + 1))\<rparr>, length (heap s))"
  by (simp add: allocFreebin_def ref_def Let_def new_Bin_def)

lemma allocShelf_eq:
  "j < length (shelves s) \<Longrightarrow> w \<le> shelf_free (shelves s ! j) \<Longrightarrow> h \<le> shelf_h (shelves s ! j) \<Longrightarrow>
   allocShelf s j w h f =
     Inr (s\<lparr>shelves := (shelves s)[j := (shelves s ! j)\<lparr>shelf_x := shelf_x (shelves s ! j) + w,
                                                     shelf_free := shelf_free (shelves s ! j) - w\<rparr>],
            heap := heap s @ [new_Bin f (shelf_x (shelves s ! j)) (shelf_y (shelves s ! j)) w h w
                                (shelf_h (shelves s ! j)) 1],
            bins := (bins s)(key_of f \<mapsto> length (heap s)),
            stats := (stats s)(h \<mapsto> Num (or0 (stats s h) + 1))\<rparr>, length (heap s))"
  by (simp add: allocShelf_def Shelf_alloc_def ref_def Let_def new_Bin_def)

lemma place_no_throw: "place s w h f \<noteq> Done (Inl e)"
proof (cases rule: place_cases [of s w h f])
  case (freebin k)
  then show ?thesis by (simp add: allocFreebin_eq returned_def)
next
  case (shelf j)
  then show ?thesis by (simp add: allocShelf_eq returned_def)
next
  case new_shelf
  then show ?thesis by (simp add: allocShelf_eq returned_def new_Shelf_def nth_append)
next
  case grow
  then show ?thesis by simp
next
  case fail
  then show ?thesis by simp
qed

lemma packOne_try_no_throw: "packOne_try s w h i \<noteq> Done (Inl e)"
  by (simp add: packOne_try_def place_no_throw split: option.splits)

subsection \<open>Reasoning about the retry\<close>

lemma packOne_rule:
  assumes "packOne s w h i = Some r"
    and "I s"
    and "\<And>s i r. I s \<Longrightarrow> packOne_try s w h i = Done r \<Longrightarrow> Q r"
    and "\<And>s i s' f. I s \<Longrightarrow> packOne_try s w h i = Retry s' f \<Longrightarrow> I s'"
  shows "Q r"
proof -
  have "w = w \<longrightarrow> h = h \<longrightarrow> I s \<longrightarrow> Q r"
  proof (rule packOne.raw_induct
      [where P = "\<lambda>s' w' h' i' r'. w' = w \<longrightarrow> h' = h \<longrightarrow> I s' \<longrightarrow> Q r'", OF _ assms(1)])
    fix pk :: "ShelfPack \<Rightarrow> int \<Rightarrow> int \<Rightarrow> ident option \<Rightarrow> (error + ShelfPack \<times> nat option) option"
    fix s0 w0 h0 i0 r0
    assume IH: "\<And>s' w' h' i' r'. pk s' w' h' i' = Some r' \<Longrightarrow> w' = w \<longrightarrow> h' = h \<longrightarrow> I s' \<longrightarrow> Q r'"
      and body: "(case packOne_try s0 w0 h0 i0 of Done r \<Rightarrow> Some r
                  | Retry s' finalId \<Rightarrow> pk s' w0 h0 (Some finalId)) = Some r0"
    show "w0 = w \<longrightarrow> h0 = h \<longrightarrow> I s0 \<longrightarrow> Q r0"
    proof (intro impI)
      assume eq: "w0 = w" "h0 = h" and inv: "I s0"
      show "Q r0"
      proof (cases "packOne_try s0 w h i0")
        case (Done r')
        with body eq have "r' = r0" by simp
        with Done assms(3) [OF inv] show ?thesis by simp
      next
        case (Retry s' f)
        with body eq have "pk s' w h (Some f) = Some r0" by simp
        from IH [OF this] assms(4) [OF inv Retry] show ?thesis by simp
      qed
    qed
  qed
  with assms(2) show ?thesis by simp
qed

text \<open>
  The retry need not come to an end: in \<open>stuck_state\<close>, reached by \<open>packOne(0, 3)\<close> on
  a new packer of width 0 and height 4, the activation for \<open>(0, 4)\<close> grows the container
  to the dimensions it already has and calls itself with the same arguments.
\<close>

lemma packOne_stuck_state:
  "packOne (new_ShelfPack 0 4 True) 0 3 None = Some (Inr (stuck_state, Some 0))"
  by (subst packOne.simps) (simp add: run_defs stuck_state_def)

lemma packOne_try_stuck_state:
  "packOne_try stuck_state 0 4 (Some (IdNum 2)) = Retry stuck_state (IdNum 2)"
  by (simp add: run_defs stuck_state_def)

text \<open>
  C9. No call of \<open>packOne\<close>, in any state, ends in the error thrown by \<open>allocShelf\<close>
  (nor in any other error): whenever \<open>allocShelf\<close> is called, the scan has established
  \<open>w \<le> shelf.free\<close> and \<open>h \<le> shelf.h\<close> for the shelf at a valid index, so
  \<open>Shelf.alloc\<close> succeeds.
\<close>

theorem packOne_never_throws:
  "packOne s w h i \<noteq> Some (Inl e) \<and> packOne_try s w h i \<noteq> Done (Inl e)"
proof (rule conjI [OF _ packOne_try_no_throw])
  show "packOne s w h i \<noteq> Some (Inl e)"
  proof
    assume "packOne s w h i = Some (Inl e)"
    then have "Inl e \<noteq> (Inl e :: error + ShelfPack \<times> nat option)"
      by (rule packOne_rule [where I = "\<lambda>s. True" and Q = "\<lambda>r. r \<noteq> Inl e"])
         (auto simp: packOne_try_no_throw)
    then show False by simp
  qed
qed

subsection \<open>Invariants of the reachable states\<close>

lemma packOne_try_cases [consumes 1, case_names hit freebin shelf new_shelf fail]:
  assumes "packOne_try s w h i = Done (Inr (s', r))"
  obtains
    (hit) i' a where "i = Some i'" "bins s (key_of i') = Some a" "s' = fst (ref s a)" "r = Some a"
  | (freebin) k a where "k < length (freebins s)"
      "w \<le> maxw (heap s ! (freebins s ! k))" "h \<le> maxh (heap s ! (freebins s ! k))"
      "allocFreebin (with_id s i) k w h (final_id s i) = Inr (s', a)" "r = Some a"
  | (shelf) j a where "j < length (shelves s)"
      "w \<le> shelf_free (shelves s ! j)" "h \<le> shelf_h (shelves s ! j)"
      "allocShelf (with_id s i) j w h (final_id s i) = Inr (s', a)" "r = Some a"
  | (new_shelf) a where
      "allocShelf
         ((with_id s i)\<lparr>shelves := shelves s @ [new_Shelf (sum_list (map shelf_h (shelves s))) (sp_w s) h]\<rparr>)
         (length (shelves s)) w h (final_id s i) = Inr (s', a)" "r = Some a"
      "w \<le> sp_w s"
  | (fail) "s' = with_id s i" "r = None"
proof (cases "\<exists>i' a. i = Some i' \<and> bins s (key_of i') = Some a")
  case True
  then obtain i' a where ia: "i = Some i'" "bins s (key_of i') = Some a" by blast
  with assms have "s' = fst (ref s a)" "r = Some a"
    by (simp_all add: packOne_try_def getBin_def)
  with ia show ?thesis by (rule hit)
next
  case False
  then have pl: "packOne_try s w h i = place (with_id s i) w h (final_id s i)"
    by (cases i) (auto simp: packOne_try_def getBin_def with_id_def final_id_def split: option.splits)
  have fields: "freebins (with_id s i) = freebins s" "shelves (with_id s i) = shelves s"
    "heap (with_id s i) = heap s" "sp_w (with_id s i) = sp_w s"
    by (cases i; simp add: with_id_def)+
  show ?thesis
  proof (cases rule: place_cases [of "with_id s i" w h "final_id s i"])
    case (freebin k)
    with pl assms obtain a where "allocFreebin (with_id s i) k w h (final_id s i) = Inr (s', a)" "r = Some a"
      by (auto simp: returned_def split: sum.splits)
    with freebin fields show ?thesis by (intro that(2) [of k a]) auto
  next
    case (shelf j)
    with pl assms obtain a where "allocShelf (with_id s i) j w h (final_id s i) = Inr (s', a)" "r = Some a"
      by (auto simp: returned_def split: sum.splits)
    with shelf fields show ?thesis by (intro that(3) [of j a]) auto
  next
    case new_shelf
    with pl assms fields obtain a where "allocShelf
         ((with_id s i)\<lparr>shelves := shelves s @ [new_Shelf (sum_list (map shelf_h (shelves s))) (sp_w s) h]\<rparr>)
         (length (shelves s)) w h (final_id s i) = Inr (s', a)" "r = Some a"
      by (auto simp: returned_def split: sum.splits)
    with new_shelf fields show ?thesis by (intro that(4) [of a]) auto
  next
    case grow
    with pl assms show ?thesis by simp
  next
    case fail
    with pl assms show ?thesis by (intro that(5)) auto
  qed
qed

lemma packOne_try_Retry:
  assumes "packOne_try s w h i = Retry s' f"
  shows "s' = resize (with_id s i) (grow_w (with_id s i) w) (grow_h (with_id s i) h)"
proof -
  have nohit: "\<not> (\<exists>i' a. i = Some i' \<and> bins s (key_of i') = Some a)"
    using assms by (auto simp: packOne_try_def getBin_def split: option.splits)
  then have pl: "packOne_try s w h i = place (with_id s i) w h (final_id s i)"
    by (cases i) (auto simp: packOne_try_def getBin_def with_id_def final_id_def split: option.splits)
  show ?thesis
  proof (cases rule: place_cases [of "with_id s i" w h "final_id s i"])
    case (freebin k)
    with pl assms show ?thesis by (simp add: allocFreebin_eq returned_def)
  next
    case (shelf j)
    with pl assms show ?thesis by (simp add: allocShelf_eq returned_def)
  next
    case new_shelf
    with pl assms show ?thesis by (simp add: allocShelf_eq returned_def new_Shelf_def nth_append)
  next
    case grow
    with pl assms show ?thesis by simp
  next
    case fail
    with pl assms show ?thesis by simp
  qed
qed

lemma with_id_cases: "with_id s i = s \<or> with_id s i = s\<lparr>maxId := maxId s + 1\<rparr>"
  by (cases i) (simp_all add: with_id_def)

text \<open>
  A property \<open>I\<close> holds after \<open>packOne\<close> when it holds before and each elementary step of
  \<open>packOne\<close> keeps it.
\<close>

lemma packOne_invariant:
  assumes run: "packOne s w h i = Some (Inr (s', r))"
    and inv: "I s"
    and maxId: "\<And>s m. I s \<Longrightarrow> I (s\<lparr>maxId := m\<rparr>)"
    and hit: "\<And>s k a. I s \<Longrightarrow> bins s k = Some a \<Longrightarrow> I (fst (ref s a))"
    and resize: "\<And>s w h. I s \<Longrightarrow> I (resize s w h)"
    and freebin: "\<And>s k f s' a. I s \<Longrightarrow> k < length (freebins s)
        \<Longrightarrow> w \<le> maxw (heap s ! (freebins s ! k)) \<Longrightarrow> h \<le> maxh (heap s ! (freebins s ! k))
        \<Longrightarrow> allocFreebin s k w h f = Inr (s', a) \<Longrightarrow> I s'"
    and shelf: "\<And>s j f s' a. I s \<Longrightarrow> j < length (shelves s)
        \<Longrightarrow> w \<le> shelf_free (shelves s ! j) \<Longrightarrow> h \<le> shelf_h (shelves s ! j)
        \<Longrightarrow> allocShelf s j w h f = Inr (s', a) \<Longrightarrow> I s'"
    and new_shelf: "\<And>s. I s \<Longrightarrow>
        I (s\<lparr>shelves := shelves s @ [new_Shelf (sum_list (map shelf_h (shelves s))) (sp_w s) h]\<rparr>)"
  shows "I s'"
proof -
  have wid: "I (with_id s i)" if "I s" for s i
    using with_id_cases [of s i] that maxId [of s "maxId s + 1"] by auto
  have fields: "freebins (with_id s i) = freebins s" "shelves (with_id s i) = shelves s"
    "heap (with_id s i) = heap s" "sp_w (with_id s i) = sp_w s" for s i
    by (cases i; simp add: with_id_def)+
  have finished: "I s'" if "I s" and tr: "packOne_try s w h i = Done (Inr (s', r))" for s i s' r
    using tr
  proof (cases rule: packOne_try_cases)
    case (hit i' a)
    with \<open>I s\<close> show ?thesis using assms(4) by blast
  next
    case (freebin k a)
    show ?thesis
      by (rule assms(6) [OF wid [OF \<open>I s\<close>] _ _ _ freebin(4)]) (use freebin fields in auto)
  next
    case (shelf j a)
    show ?thesis
      by (rule assms(7) [OF wid [OF \<open>I s\<close>] _ _ _ shelf(4)]) (use shelf fields in auto)
  next
    case (new_shelf a)
    have "I ((with_id s i)\<lparr>shelves := shelves s @ [new_Shelf (sum_list (map shelf_h (shelves s))) (sp_w s) h]\<rparr>)"
      using assms(8) [OF wid [OF \<open>I s\<close>], of i] by (simp add: fields)
    then show ?thesis
      by (rule assms(7) [OF _ _ _ _ new_shelf(1)])
         (use new_shelf in \<open>auto simp: nth_append new_Shelf_def fields\<close>)
  next
    case fail
    with wid [OF \<open>I s\<close>] show ?thesis by simp
  qed
  have retry: "I s'" if "I s" and tr: "packOne_try s w h i = Retry s' f" for s i s' f
    using packOne_try_Retry [OF tr] wid [OF \<open>I s\<close>] assms(5) by simp
  have "\<forall>t r'. (Inr (s', r) :: error + ShelfPack \<times> nat option) = Inr (t, r') \<longrightarrow> I t"
    by (rule packOne_rule [where I = I and Q = "\<lambda>res. \<forall>t r'. res = Inr (t, r') \<longrightarrow> I t",
          OF run inv]) (use finished retry in blast)+
  then show ?thesis by simp
qed

lemma pack_loop_invariant:
  assumes step: "\<And>s w h i s' r. I s \<Longrightarrow> P w h \<Longrightarrow> packOne s w h i = Some (Inr (s', r)) \<Longrightarrow> I s'"
  shows "pack_loop s items inPlace seen results = Some (Inr (s', items', results'))
         \<Longrightarrow> I s \<Longrightarrow> sizes_ok P items \<Longrightarrow> I s'"
proof (induction items arbitrary: s seen results)
  case Nil
  then show ?case by simp
next
  case (Cons b rest)
  have rest_ok: "sizes_ok P rest" using Cons.prems(3) by (simp add: sizes_ok_def)
  show ?case
  proof (cases "in_w b")
    case None
    with Cons.prems(1) have "pack_loop s rest inPlace (seen @ [b]) results = Some (Inr (s', items', results'))"
      by simp
    from Cons.IH [OF this Cons.prems(2) rest_ok] show ?thesis .
  next
    case (Some w)
    note w = Some
    show ?thesis
    proof (cases "in_h b")
      case None
      with w Cons.prems(1) have "pack_loop s rest inPlace (seen @ [b]) results = Some (Inr (s', items', results'))"
        by simp
      from Cons.IH [OF this Cons.prems(2) rest_ok] show ?thesis .
    next
      case (Some h)
      have P: "P w h" using Cons.prems(3) w Some by (simp add: sizes_ok_def)
      from Cons.prems(1) w Some obtain s1 r seen1 results1 where
        one: "packOne s w h (in_id b) = Some (Inr (s1, r))" and
        more: "pack_loop s1 rest inPlace seen1 results1 = Some (Inr (s', items', results'))"
        by (auto split: option.splits sum.splits if_splits)
      from step [OF Cons.prems(2) P one] have "I s1" .
      from Cons.IH [OF more this rest_ok] show ?thesis .
    qed
  qed
qed

lemma shrink_cases: "shrink s = s \<or> (\<exists>w h. shrink s = resize s w h)"
  by (auto simp: shrink_def split: prod.splits)

lemma reach_invariant:
  assumes r: "reach P Q s"
    and new: "\<And>width height ar. I (new_ShelfPack width height ar)"
    and packOne: "\<And>s w h i s' r. I s \<Longrightarrow> P w h \<Longrightarrow> packOne s w h i = Some (Inr (s', r)) \<Longrightarrow> I s'"
    and ref: "\<And>s a. I s \<Longrightarrow> Q s a \<Longrightarrow> I (fst (ref s a))"
    and unref: "\<And>s a. I s \<Longrightarrow> Q s a \<Longrightarrow> I (fst (unref s a))"
    and resize: "\<And>s w h. I s \<Longrightarrow> I (resize s w h)"
    and clear: "\<And>s. I s \<Longrightarrow> I (clear s)"
  shows "I s"
  using r
proof (induction rule: reach.induct)
  case (reach_new width height ar)
  show ?case by (rule new)
next
  case (reach_packOne s w h i s' r)
  then show ?case using packOne by blast
next
  case (reach_pack s items inPlace s' items' results)
  from reach_pack(3) obtain s1 where
    loop: "pack_loop s items inPlace [] [] = Some (Inr (s1, items', results))" and s': "s' = shrink s1"
    by (auto simp: pack_def split: option.splits sum.splits)
  have "I s1"
    by (rule pack_loop_invariant [where I = I and P = P, OF _ loop reach_pack(4) reach_pack(2)])
       (use packOne in blast)
  then show ?case using s' shrink_cases [of s1] resize by auto
next
  case (reach_ref s a)
  then show ?case using ref by blast
next
  case (reach_unref s a)
  then show ?case using unref by blast
next
  case (reach_resize s w h)
  then show ?case using resize by blast
next
  case (reach_shrink s)
  then show ?case using shrink_cases [of s] resize by auto
next
  case (reach_clear s)
  then show ?case using clear by blast
qed

lemma reach_mono:
  assumes "reach P Q s" and "\<And>w h. P w h \<Longrightarrow> P' w h" and "\<And>s a. Q s a \<Longrightarrow> Q' s a"
  shows "reach P' Q' s"
  using assms(1)
proof (induction rule: reach.induct)
  case (reach_pack s items inPlace s' items' results)
  have "sizes_ok P' items"
    using reach_pack(2) assms(2) by (auto simp: sizes_ok_def list_all_iff split: option.splits)
  with reach_pack show ?case by (blast intro: reach.reach_pack)
qed (blast intro: reach.intros assms)+

subsection \<open>The registry stays consistent\<close>

lemma ref_heap_nth:
  "heap (fst (ref s a)) ! b =
     (if b = a \<and> a < length (heap s) then (heap s ! a)\<lparr>refcount := refcount (heap s ! a) + 1\<rparr>
      else heap s ! b)"
  by (cases "a < length (heap s)") (simp_all add: ref_def Let_def list_update_beyond)

lemma ref_fields:
  "freebins (fst (ref s a)) = freebins s" "bins (fst (ref s a)) = bins s"
  "shelves (fst (ref s a)) = shelves s" "sp_w (fst (ref s a)) = sp_w s"
  "sp_h (fst (ref s a)) = sp_h s" "maxId (fst (ref s a)) = maxId s"
  "autoResize (fst (ref s a)) = autoResize s"
  "length (heap (fst (ref s a))) = length (heap s)"
  by (simp_all add: ref_def Let_def)

lemma unref_heap_nth:
  "heap (fst (unref s a)) ! b =
     (if b = a \<and> a < length (heap s) \<and> refcount (heap s ! a) \<noteq> 0
      then (heap s ! a)\<lparr>refcount := refcount (heap s ! a) - 1\<rparr>
      else heap s ! b)"
  by (cases "a < length (heap s)") (simp_all add: unref_def Let_def list_update_beyond)

lemma unref_fields:
  "shelves (fst (unref s a)) = shelves s" "sp_w (fst (unref s a)) = sp_w s"
  "sp_h (fst (unref s a)) = sp_h s" "maxId (fst (unref s a)) = maxId s"
  "autoResize (fst (unref s a)) = autoResize s"
  "length (heap (fst (unref s a))) = length (heap s)"
  by (simp_all add: unref_def Let_def)

lemma unref_bins:
  "bins (fst (unref s a)) =
     (if refcount (heap s ! a) = 1 then (bins s)(key_of (bin_id (heap s ! a)) := None) else bins s)"
  by (simp add: unref_def Let_def)


lemma registry_okI:
  assumes "\<And>k a. bins s k = Some a \<Longrightarrow>
     a < length (heap s) \<and> key_of (bin_id (heap s ! a)) = k \<and> 1 \<le> refcount (heap s ! a)"
  shows "registry_ok s"
  using assms by (simp add: registry_ok_def)

lemma registry_okD:
  assumes "registry_ok s" "bins s k = Some a"
  shows "a < length (heap s)" "key_of (bin_id (heap s ! a)) = k" "1 \<le> refcount (heap s ! a)"
  using assms by (simp_all add: registry_ok_def)

lemma registry_ok_new: "registry_ok (new_ShelfPack width height ar)"
  by (simp add: registry_ok_def new_ShelfPack_def)

lemma registry_ok_maxId: "registry_ok s \<Longrightarrow> registry_ok (s\<lparr>maxId := m\<rparr>)"
  by (simp add: registry_ok_def)

lemma registry_ok_ref:
  assumes "registry_ok s"
  shows "registry_ok (fst (ref s a))"
proof (rule registry_okI)
  fix k b
  assume "bins (fst (ref s a)) k = Some b"
  then have "bins s k = Some b" by (simp add: ref_fields)
  from registry_okD [OF assms this]
  show "b < length (heap (fst (ref s a))) \<and> key_of (bin_id (heap (fst (ref s a)) ! b)) = k
        \<and> 1 \<le> refcount (heap (fst (ref s a)) ! b)"
    by (auto simp: ref_fields ref_heap_nth)
qed

lemma registry_ok_unref:
  assumes "registry_ok s"
  shows "registry_ok (fst (unref s a))"
proof (rule registry_okI)
  fix k b
  assume reg: "bins (fst (unref s a)) k = Some b"
  then have old: "bins s k = Some b" by (simp add: unref_bins split: if_splits)
  note D = registry_okD [OF assms old]
  have "refcount (heap s ! a) \<noteq> 1" if "b = a"
  proof
    assume "refcount (heap s ! a) = 1"
    with reg have "k \<noteq> key_of (bin_id (heap s ! a))" by (auto simp: unref_bins split: if_splits)
    with D(2) that show False by simp
  qed
  with D show "b < length (heap (fst (unref s a))) \<and> key_of (bin_id (heap (fst (unref s a)) ! b)) = k
        \<and> 1 \<le> refcount (heap (fst (unref s a)) ! b)"
    by (auto simp: unref_fields unref_heap_nth)
qed

lemma registry_ok_resize: "registry_ok s \<Longrightarrow> registry_ok (resize s w h)"
  by (simp add: registry_ok_def resize_def)

lemma registry_ok_clear: "registry_ok (clear s)"
  by (simp add: registry_ok_def clear_def)

lemma registry_ok_extend:
  assumes "registry_ok s" "key_of (bin_id b) = kf" "refcount b = 1"
    "bins s' = (bins s)(kf \<mapsto> length (heap s))" "heap s' = heap s @ [b]"
  shows "registry_ok s'"
proof (rule registry_okI)
  fix k a
  assume reg: "bins s' k = Some a"
  show "a < length (heap s') \<and> key_of (bin_id (heap s' ! a)) = k \<and> 1 \<le> refcount (heap s' ! a)"
  proof (cases "k = kf")
    case True
    with reg assms(4) have "a = length (heap s)" by simp
    with True assms(2,3,5) show ?thesis by simp
  next
    case False
    with reg assms(4) have "bins s k = Some a" by simp
    from registry_okD [OF assms(1) this] assms(5) show ?thesis by (simp add: nth_append)
  qed
qed

lemma registry_ok_allocFreebin:
  assumes "registry_ok s" "k < length (freebins s)" "allocFreebin s k w h f = Inr (s', a)"
  shows "registry_ok s'"
  by (rule registry_ok_extend [OF assms(1), where kf = "key_of f"])
     (use assms(2,3) in \<open>auto simp: allocFreebin_eq new_Bin_def\<close>)

lemma registry_ok_allocShelf:
  assumes "registry_ok s" "j < length (shelves s)" "w \<le> shelf_free (shelves s ! j)"
    "h \<le> shelf_h (shelves s ! j)" "allocShelf s j w h f = Inr (s', a)"
  shows "registry_ok s'"
  by (rule registry_ok_extend [OF assms(1), where kf = "key_of f"])
     (use assms(2-5) in \<open>auto simp: allocShelf_eq new_Bin_def\<close>)

lemma registry_ok_shelves: "registry_ok s \<Longrightarrow> registry_ok (s\<lparr>shelves := shs\<rparr>)"
  by (simp add: registry_ok_def)

lemma registry_ok_packOne:
  assumes "packOne s w h i = Some (Inr (s', r))" "registry_ok s"
  shows "registry_ok s'"
  by (rule packOne_invariant [where I = registry_ok, OF assms])
     (auto intro: registry_ok_maxId registry_ok_ref registry_ok_resize registry_ok_allocFreebin
        registry_ok_allocShelf registry_ok_shelves)

lemma reach_registry_ok:
  assumes "reach P Q s"
  shows "registry_ok s"
  using assms
  by (rule reach_invariant)
     (auto intro: registry_ok_new registry_ok_packOne registry_ok_ref registry_ok_unref
        registry_ok_resize registry_ok_clear)

subsection \<open>Runs on a fresh packer\<close>

lemma packOne_fresh_10x10:
  "packOne (new_ShelfPack 64 64 False) 10 10 None = Some (Inr (one_bin_state, Some 0))"
  by (subst packOne.simps) (simp add: run_defs one_bin_state_def)

lemma unref_one_bin_state: "fst (unref one_bin_state 0) = freed_state"
  by (simp add: run_defs one_bin_state_def freed_state_def)

lemma reachable_one_bin_state: "reach P Q one_bin_state" if "P 10 10"
  by (rule reach_packOne [where okSize = P and okBin = Q and w = 10 and h = 10,
        OF reach_new that packOne_fresh_10x10])

text \<open>
  C4. On a fresh packer, \<open>pack([{w:10,h:10}], {inPlace:true})\<close> is to write the \<open>x\<close>,
  \<open>y\<close> and \<open>id\<close> of the returned bin onto the input record. The code does not: it
  returns one bin, placed at \<open>(0, 0)\<close> with id 1, and leaves the record as it was,
  without \<open>x\<close>, \<open>y\<close> and \<open>id\<close>, because it writes only onto a record that already
  has the properties \<open>x\<close> and \<open>y\<close> (second part).
\<close>

theorem pack_inPlace_plain_record:
  "(case pack (new_ShelfPack 64 64 False) [plain_10x10] True of
      Some (Inr (s', items', results)) \<Rightarrow>
        results = [0] \<and> bin_x (heap s' ! 0) = 0 \<and> bin_y (heap s' ! 0) = 0
        \<and> bin_id (heap s' ! 0) = IdNum 1
        \<and> items' = [plain_10x10] \<and> in_x (hd items') = None \<and> in_y (hd items') = None
        \<and> in_id (hd items') = None
    | _ \<Rightarrow> False)
   \<and> (case pack (new_ShelfPack 64 64 False) [plain_10x10\<lparr>in_x := Some 5, in_y := Some 7\<rparr>] True of
      Some (Inr (s', items', results)) \<Rightarrow>
        results = [0]
        \<and> items' = [plain_10x10\<lparr>in_id := Some (IdNum 1), in_x := Some 0, in_y := Some 0\<rparr>]
    | _ \<Rightarrow> False)"
  by (simp add: pack_def packOne_fresh_10x10 shrink_def resize_def Shelf_resize_def
        one_bin_state_def plain_10x10_def)

text \<open>
  C5. \<open>pack\<close> is to return the bins it allocated whether or not \<open>inPlace\<close> is set.
  The code does not when \<open>inPlace\<close> is not set: on a fresh packer,
  \<open>pack([{w:10,h:10}], {})\<close> allocates a bin (it is registered under id 1 with
  \<open>refcount\<close> 1) and returns the empty array.
\<close>

theorem pack_without_inPlace_returns_nothing:
  "(case pack (new_ShelfPack 64 64 False) [plain_10x10] False of
      Some (Inr (s', items', results)) \<Rightarrow>
        results = [] \<and> getBin s' (IdNum 1) = Some 0 \<and> length (heap s') = 1
        \<and> refcount (heap s' ! 0) = 1
    | _ \<Rightarrow> False)"
  by (simp add: pack_def packOne_fresh_10x10 shrink_def resize_def Shelf_resize_def getBin_def
        key_of_int_def digits.simps digit_char_def one_bin_state_def plain_10x10_def)

subsection \<open>The frame of ref\<close>

lemma ref_stats_other: "k \<noteq> bin_h (heap s ! a) \<Longrightarrow> stats (fst (ref s a)) k = stats s k"
  by (simp add: ref_def Let_def)

lemma ref_stats_active: "refcount (heap s ! a) \<noteq> 0 \<Longrightarrow> stats (fst (ref s a)) = stats s"
  by (simp add: ref_def Let_def)

lemma reref_scenario:
  "freebins (fst (ref freed_state 0)) = [0]
   \<and> refcount (heap (fst (ref freed_state 0)) ! 0) = 1
   \<and> getBin (fst (ref freed_state 0)) (IdNum 1) = None
   \<and> (case packOne (fst (ref freed_state 0)) 10 10 None of
        Some (Inr (s4, Some b)) \<Rightarrow>
          b = 1 \<and> freebins s4 = [] \<and> length (shelves s4) = 1
          \<and> bin_x (heap s4 ! b) = bin_x (heap s4 ! 0) \<and> bin_y (heap s4 ! b) = bin_y (heap s4 ! 0)
          \<and> refcount (heap s4 ! 0) = 1 \<and> refcount (heap s4 ! b) = 1
          \<and> rect_overlap (heap s4 ! 0) (heap s4 ! b)
      | _ \<Rightarrow> False)"
  apply (simp add: run_defs freed_state_def)
  apply (subst packOne.simps)
  apply (simp add: run_defs rect_overlap_def)
  done

text \<open>
  C10. \<open>ref(bin)\<close> changes nothing but the \<open>refcount\<close> of that bin and, when the count
  was 0, the \<open>stats\<close> entry of the bin's height: the free pool, the registry, the
  shelves and the container's dimensions are as before, and so is every other bin.
  Hence the bin freed by \<open>unref\<close> in \<open>freed_state\<close> and handed to \<open>ref\<close> again
  is still in the free pool, now with \<open>refcount\<close> 1 and not registered, and the next
  \<open>packOne(10, 10)\<close> allocates a second bin on its footprint.
\<close>

theorem ref_frame:
  "freebins (fst (ref s a)) = freebins s \<and> bins (fst (ref s a)) = bins s
   \<and> shelves (fst (ref s a)) = shelves s \<and> sp_w (fst (ref s a)) = sp_w s
   \<and> sp_h (fst (ref s a)) = sp_h s \<and> length (heap (fst (ref s a))) = length (heap s)
   \<and> (\<forall>b. b \<noteq> a \<longrightarrow> heap (fst (ref s a)) ! b = heap s ! b)
   \<and> (a < length (heap s) \<longrightarrow>
        heap (fst (ref s a)) ! a = (heap s ! a)\<lparr>refcount := refcount (heap s ! a) + 1\<rparr>)
   \<and> (\<forall>k. k \<noteq> bin_h (heap s ! a) \<longrightarrow> stats (fst (ref s a)) k = stats s k)
   \<and> (refcount (heap s ! a) \<noteq> 0 \<longrightarrow> stats (fst (ref s a)) = stats s)
   \<and> fst (unref one_bin_state 0) = freed_state
   \<and> freebins (fst (ref freed_state 0)) = [0]
   \<and> refcount (heap (fst (ref freed_state 0)) ! 0) = 1
   \<and> getBin (fst (ref freed_state 0)) (IdNum 1) = None
   \<and> (case packOne (fst (ref freed_state 0)) 10 10 None of
        Some (Inr (s4, Some b)) \<Rightarrow>
          b = 1 \<and> freebins s4 = [] \<and> length (shelves s4) = 1
          \<and> bin_x (heap s4 ! b) = bin_x (heap s4 ! 0) \<and> bin_y (heap s4 ! b) = bin_y (heap s4 ! 0)
          \<and> refcount (heap s4 ! 0) = 1 \<and> refcount (heap s4 ! b) = 1
          \<and> rect_overlap (heap s4 ! 0) (heap s4 ! b)
      | _ \<Rightarrow> False)"
  using reref_scenario unref_one_bin_state
  by (simp add: ref_fields ref_heap_nth ref_stats_other ref_stats_active)

theorem ref_frame_witness:
  "freebins (fst (ref freed_state 0)) = [0]
   \<and> heap (fst (ref freed_state 0)) ! 0 = (heap freed_state ! 0)\<lparr>refcount := 1\<rparr>
   \<and> stats (fst (ref freed_state 0)) 7 = None"
proof -
  have "(0::nat) < length (heap freed_state)" "(7::int) \<noteq> bin_h (heap freed_state ! 0)"
    "refcount (heap freed_state ! 0) = 0" "stats freed_state 7 = None"
    "freebins freed_state = [0]"
    by (simp_all add: freed_state_def)
  with ref_frame [of freed_state 0] show ?thesis by simp
qed

subsection \<open>Packing an id that is already active\<close>

lemma unref_times_to_zero:
  "a < length (heap s) \<Longrightarrow> refcount (heap s ! a) = int n \<Longrightarrow> 0 < n \<Longrightarrow>
     refcount (heap (unref_times n s a) ! a) = 0
     \<and> bins (unref_times n s a) (key_of (bin_id (heap s ! a))) = None"
proof (induction n arbitrary: s)
  case 0
  then show ?case by simp
next
  case (Suc n)
  let ?s1 = "fst (unref s a)"
  have rc: "refcount (heap ?s1 ! a) = int n" and idn: "bin_id (heap ?s1 ! a) = bin_id (heap s ! a)"
    and len: "a < length (heap ?s1)"
    using Suc.prems by (simp_all add: unref_heap_nth unref_fields)
  show ?case
  proof (cases n)
    case 0
    with Suc.prems rc show ?thesis by (simp add: unref_bins)
  next
    case (Suc m)
    then have "0 < n" by simp
    from Suc.IH [OF len rc this] idn show ?thesis by simp
  qed
qed

text \<open>
  C6. In every reachable state, \<open>packOne\<close> with an id that is in the registry returns
  the registered bin, whatever \<open>w\<close> and \<open>h\<close> are; the only change is that the bin's
  \<open>refcount\<close> is one higher (the bin keeps its placement; no bin object is created; the
  shelves, the free pool, the registry and the container's dimensions stay as they
  are). Calling \<open>unref\<close> on the bin as many times as its \<open>refcount\<close> then says brings
  the count to 0 and removes the id from \<open>getBin\<close>.
\<close>

theorem packOne_active_id:
  assumes "reachable s" and "getBin s i = Some a"
  shows "packOne s w h (Some i) = Some (Inr (fst (ref s a), Some a))
     \<and> heap (fst (ref s a)) ! a = (heap s ! a)\<lparr>refcount := refcount (heap s ! a) + 1\<rparr>
     \<and> length (heap (fst (ref s a))) = length (heap s)
     \<and> shelves (fst (ref s a)) = shelves s \<and> freebins (fst (ref s a)) = freebins s
     \<and> bins (fst (ref s a)) = bins s
     \<and> sp_w (fst (ref s a)) = sp_w s \<and> sp_h (fst (ref s a)) = sp_h s
     \<and> refcount (heap (unref_times (nat (refcount (heap (fst (ref s a)) ! a))) (fst (ref s a)) a) ! a) = 0
     \<and> getBin (unref_times (nat (refcount (heap (fst (ref s a)) ! a))) (fst (ref s a)) a) i = None"
proof -
  have ok: "registry_ok s"
    using assms(1) by (simp add: reachable_def reach_registry_ok)
  from registry_okD [OF ok assms(2) [unfolded getBin_def]]
  have a: "a < length (heap s)" and key: "key_of (bin_id (heap s ! a)) = key_of i"
    and rc: "1 \<le> refcount (heap s ! a)" .
  have "packOne_try s w h (Some i) = Done (Inr (fst (ref s a), Some a))"
    using assms(2) by (simp add: packOne_try_def)
  then have run: "packOne s w h (Some i) = Some (Inr (fst (ref s a), Some a))"
    by (subst packOne.simps) simp
  let ?s1 = "fst (ref s a)"
  let ?n = "nat (refcount (heap ?s1 ! a))"
  have "a < length (heap ?s1)" "refcount (heap ?s1 ! a) = int ?n" "0 < ?n"
    using a rc by (simp_all add: ref_fields ref_heap_nth)
  from unref_times_to_zero [OF this]
  have "refcount (heap (unref_times ?n ?s1 a) ! a) = 0"
    "bins (unref_times ?n ?s1 a) (key_of i) = None"
    using a key by (simp_all add: ref_heap_nth)
  with run a show ?thesis
    by (simp add: ref_fields ref_heap_nth getBin_def)
qed

theorem packOne_active_id_witness:
  "packOne one_bin_state 3 4 (Some (IdNum 1)) = Some (Inr (fst (ref one_bin_state 0), Some 0))
   \<and> refcount (heap (fst (ref one_bin_state 0)) ! 0) = 2
   \<and> getBin (unref_times 2 (fst (ref one_bin_state 0)) 0) (IdNum 1) = None"
proof -
  have r: "reachable one_bin_state"
    unfolding reachable_def by (rule reachable_one_bin_state) (simp add: any_size_def)
  have g: "getBin one_bin_state (IdNum 1) = Some 0"
    by (simp add: one_bin_state_def getBin_def key_of_int_def digits.simps digit_char_def)
  have rc: "refcount (heap one_bin_state ! 0) = 1"
    by (simp add: one_bin_state_def)
  have "nat (refcount (heap (fst (ref one_bin_state 0)) ! 0)) = 2"
    by (simp add: one_bin_state_def ref_def Let_def)
  with packOne_active_id [OF r g, of 3 4] rc show ?thesis
    by (simp add: ref_heap_nth one_bin_state_def)
qed

subsection \<open>The free pool stays consistent when only registered bins are passed to ref and unref\<close>


















subsection \<open>Runs that misuse ref, and runs that leave a stale id in the pool\<close>








subsection \<open>Registry and free pool: what fails and what holds\<close>









subsection \<open>Overlap after ref of a freed bin\<close>


subsection \<open>Shelves and footprints\<close>















subsection \<open>Each step of the packer keeps the geometry\<close>


lemma shape_refcount [simp]: "shape (b\<lparr>refcount := r\<rparr>) = shape b"
  by (simp add: shape_def)











subsection \<open>No overlap when the packer is used with discipline\<close>







subsection \<open>Why the discipline is needed\<close>

text \<open>
  A negative width moves the cursor of a shelf backwards: after \<open>packOne(10, 10)\<close>,
  \<open>packOne(-5, 10)\<close> and \<open>packOne(5, 10)\<close> the third bin lies inside the first one.
\<close>

lemma negative_width_overlap:
  "(case packOne one_bin_state (- 5) 10 None of
      Some (Inr (s1, _)) \<Rightarrow>
        (case packOne s1 5 10 None of
           Some (Inr (s2, Some c)) \<Rightarrow>
             c = 2 \<and> registered s2 0 \<and> registered s2 c \<and> rect_overlap (heap s2 ! 0) (heap s2 ! c)
         | _ \<Rightarrow> False)
    | _ \<Rightarrow> False)"
  apply (simp only: packOne.simps [of one_bin_state])
  apply (simp add: run_defs one_bin_state_def)
  apply (subst packOne.simps)
  apply (simp add: run_defs registered_def rect_overlap_def numeral_2_eq_2)
  done

text \<open>
  A bin obtained before \<open>clear\<close> still has \<open>refcount\<close> 1 but is no longer registered:
  \<open>unref\<close> puts it into the free pool of the emptied packer, and the next two
  \<open>packOne(10, 10)\<close> place one bin on its footprint and one on a new shelf at the same place.
\<close>

lemma unref_after_clear_overlap:
  "(case packOne (fst (unref (clear one_bin_state) 0)) 10 10 None of
      Some (Inr (s1, Some b)) \<Rightarrow>
        (case packOne s1 10 10 None of
           Some (Inr (s2, Some c)) \<Rightarrow>
             b = 1 \<and> c = 2 \<and> registered s2 b \<and> registered s2 c
             \<and> rect_overlap (heap s2 ! b) (heap s2 ! c)
         | _ \<Rightarrow> False)
    | _ \<Rightarrow> False)"
  apply (simp only: packOne.simps [of "fst (unref (clear one_bin_state) 0)"])
  apply (simp add: run_defs one_bin_state_def)
  apply (subst packOne.simps)
  apply (simp add: run_defs registered_def rect_overlap_def numeral_2_eq_2)
  done

lemma registered_allocated: "registered s a \<Longrightarrow> allocated s a"
  by (simp add: registered_def allocated_def)

lemma disciplined_is_registered: "reachable_disciplined s \<Longrightarrow> reachable_registered s"
  unfolding reachable_disciplined_def reachable_registered_def
  by (erule reach_mono) (simp_all add: any_size_def)

lemma registered_is_reachable: "reachable_registered s \<Longrightarrow> reachable s"
  unfolding reachable_registered_def reachable_def
  by (erule reach_mono) (simp_all add: registered_allocated)

subsection \<open>The scans choose what the specification says\<close>















text \<open>What \<open>spec_select\<close> returns, condition by condition.\<close>

lemma find_enumerate_first:
  assumes "k < length xs" "P (k, xs ! k)" "\<And>k'. k' < k \<Longrightarrow> \<not> P (k', xs ! k')"
  shows "find P (enumerate 0 xs) = Some (k, xs ! k)"
  unfolding find_Some_iff
  by (rule exI [of _ k]) (use assms in \<open>simp add: nth_enumerate_eq\<close>)

lemma find_enumerate_none:
  assumes "\<And>k. k < length xs \<Longrightarrow> \<not> P (k, xs ! k)"
  shows "find P (enumerate 0 xs) = None"
  unfolding find_None_iff using assms
  by (auto simp: in_set_conv_nth nth_enumerate_eq)

lemma spec_select_exact_freebin:
  assumes "k < length fbs" "maxw (fbs ! k) = w \<and> maxh (fbs ! k) = h"
    and "\<And>k'. k' < k \<Longrightarrow> \<not> (maxw (fbs ! k') = w \<and> maxh (fbs ! k') = h)"
  shows "spec_select fbs shs w h = Some (FromFreebin k)"
proof -
  have "find (\<lambda>(i, bin). maxw bin = w \<and> maxh bin = h) (enumerate 0 fbs) = Some (k, fbs ! k)"
    by (rule find_enumerate_first) (use assms in auto)
  then show ?thesis by (simp add: spec_select_def exact_freebin_def)
qed

lemma spec_select_exact_shelf:
  assumes "\<And>k. k < length fbs \<Longrightarrow> \<not> (maxw (fbs ! k) = w \<and> maxh (fbs ! k) = h)"
    and "j < length shs" "w \<le> shelf_free (shs ! j) \<and> shelf_h (shs ! j) = h"
    and "\<And>j'. j' < j \<Longrightarrow> \<not> (w \<le> shelf_free (shs ! j') \<and> shelf_h (shs ! j') = h)"
  shows "spec_select fbs shs w h = Some (FromShelf j)"
proof -
  have "find (\<lambda>(i, bin). maxw bin = w \<and> maxh bin = h) (enumerate 0 fbs) = None"
    by (rule find_enumerate_none) (use assms(1) in auto)
  moreover have "find (\<lambda>(i, sh). w \<le> shelf_free sh \<and> shelf_h sh = h) (enumerate 0 shs)
                   = Some (j, shs ! j)"
    by (rule find_enumerate_first) (use assms(2-4) in auto)
  ultimately show ?thesis by (simp add: spec_select_def exact_freebin_def exact_shelf_def)
qed

lemma first_min_from_least:
  "first_min_from cur cs = Some c \<Longrightarrow>
     (cur = Some c \<and> (\<forall>x \<in> set cs. snd c \<le> snd x))
     \<or> (\<exists>n < length cs. cs ! n = c \<and> (\<forall>m. cur = Some m \<longrightarrow> snd c < snd m)
           \<and> (\<forall>k < n. snd c < snd (cs ! k)) \<and> (\<forall>x \<in> set cs. snd c \<le> snd x))"
proof (induction cs arbitrary: cur)
  case Nil
  then show ?case by simp
next
  case (Cons x xs)
  let ?cur' = "case cur of None \<Rightarrow> Some x | Some m \<Rightarrow> if snd x < snd m then Some x else Some m"
  from Cons.prems have "first_min_from ?cur' xs = Some c" by simp
  from Cons.IH [OF this] show ?case
  proof
    assume a: "?cur' = Some c \<and> (\<forall>y \<in> set xs. snd c \<le> snd y)"
    show ?thesis
    proof (cases "cur = Some c \<and> snd c \<le> snd x")
      case True
      with a show ?thesis by auto
    next
      case False
      with a have "c = x" "\<forall>m. cur = Some m \<longrightarrow> snd c < snd m"
        by (auto split: option.splits if_splits)
      with a have "0 < length (x # xs) \<and> (x # xs) ! 0 = c \<and> (\<forall>m. cur = Some m \<longrightarrow> snd c < snd m)
           \<and> (\<forall>k < 0. snd c < snd ((x # xs) ! k)) \<and> (\<forall>y \<in> set (x # xs). snd c \<le> snd y)"
        by auto
      then show ?thesis by blast
    qed
  next
    assume "\<exists>n < length xs. xs ! n = c \<and> (\<forall>m. ?cur' = Some m \<longrightarrow> snd c < snd m)
           \<and> (\<forall>k < n. snd c < snd (xs ! k)) \<and> (\<forall>y \<in> set xs. snd c \<le> snd y)"
    then obtain n where n: "n < length xs" "xs ! n = c"
      and lt: "\<forall>m. ?cur' = Some m \<longrightarrow> snd c < snd m"
      and before: "\<forall>k < n. snd c < snd (xs ! k)" and least: "\<forall>y \<in> set xs. snd c \<le> snd y"
      by blast
    have x: "snd c < snd x"
    proof (cases cur)
      case None
      with lt show ?thesis by simp
    next
      case (Some m)
      with lt show ?thesis by (cases "snd x < snd m") auto
    qed
    have cur: "\<forall>m. cur = Some m \<longrightarrow> snd c < snd m"
    proof (intro allI impI)
      fix m assume "cur = Some m"
      with lt x show "snd c < snd m" by (cases "snd x < snd m") auto
    qed
    have "\<forall>k < Suc n. snd c < snd ((x # xs) ! k)"
      using before x by (auto simp: nth_Cons split: nat.splits)
    with n x cur least have "Suc n < length (x # xs) \<and> (x # xs) ! Suc n = c
        \<and> (\<forall>m. cur = Some m \<longrightarrow> snd c < snd m)
        \<and> (\<forall>k < Suc n. snd c < snd ((x # xs) ! k)) \<and> (\<forall>y \<in> set (x # xs). snd c \<le> snd y)"
      by auto
    then show ?thesis by blast
  qed
qed

text \<open>
  The winner is the first candidate whose waste is least: no candidate has less waste,
  and every candidate seen before it has strictly more.
\<close>

lemma first_min_least:
  assumes "first_min cs = Some c"
  shows "\<exists>n < length cs. cs ! n = c \<and> (\<forall>k < n. snd c < snd (cs ! k)) \<and> (\<forall>x \<in> set cs. snd c \<le> snd x)"
  using first_min_from_least [OF assms [unfolded first_min_def]] by auto

lemma first_min_from_Some: "first_min_from (Some m) cs \<noteq> None"
  by (induction cs arbitrary: m) (auto split: if_splits)

lemma first_min_None: "first_min cs = None \<longleftrightarrow> cs = []"
  by (cases cs) (simp_all add: first_min_def first_min_from_Some)



subsection \<open>Growing the container\<close>

text \<open>
  C7. On a fresh 8 by 8 container with \<open>autoResize\<close>, \<open>packOne(10, 10)\<close> returns a bin
  placed at \<open>(0, 0)\<close>, and the container is then 20 wide and 20 high. The growth step
  itself turns 8 by 8 into 20 by 20.
\<close>

theorem packOne_grows_8x8:
  "grow_w (new_ShelfPack 8 8 True) 10 = 20 \<and> grow_h (new_ShelfPack 8 8 True) 10 = 20
   \<and> (case packOne (new_ShelfPack 8 8 True) 10 10 None of
        Some (Inr (s', Some a)) \<Rightarrow>
          sp_w s' = 20 \<and> sp_h s' = 20 \<and> bin_x (heap s' ! a) = 0 \<and> bin_y (heap s' ! a) = 0
          \<and> bin_w (heap s' ! a) = 10 \<and> bin_h (heap s' ! a) = 10 \<and> getBin s' (IdNum 1) = Some a
      | _ \<Rightarrow> False)"
proof -
  have grow: "grow_w (new_ShelfPack 8 8 True) 10 = 20 \<and> grow_h (new_ShelfPack 8 8 True) 10 = 20"
    by (simp add: grow_w_def grow_h_def new_ShelfPack_def)
  have first: "packOne_try (new_ShelfPack 8 8 True) 10 10 None
               = Retry (resize ((new_ShelfPack 8 8 True)\<lparr>maxId := 1\<rparr>) 20 20) (IdNum 1)"
    by (simp add: run_defs)
  have second: "packOne_try (resize ((new_ShelfPack 8 8 True)\<lparr>maxId := 1\<rparr>) 20 20) 10 10 (Some (IdNum 1))
               = Done (Inr (\<lparr>autoResize = True,
                     shelves = [\<lparr>shelf_y = 0, shelf_w = 20, shelf_h = 10, shelf_x = 10, shelf_free = 10\<rparr>],
                     freebins = [], stats = [10 \<mapsto> Num 1], bins = [''1'' \<mapsto> 0], maxId = 1,
                     sp_w = 20, sp_h = 20,
                     heap = [\<lparr>bin_id = IdNum 1, bin_x = 0, bin_y = 0, bin_w = 10, bin_h = 10,
                               maxw = 10, maxh = 10, refcount = 1\<rparr>]\<rparr>, Some 0))"
    by (simp add: run_defs)
  have "packOne (new_ShelfPack 8 8 True) 10 10 None
        = packOne (resize ((new_ShelfPack 8 8 True)\<lparr>maxId := 1\<rparr>) 20 20) 10 10 (Some (IdNum 1))"
    by (subst packOne.simps) (simp add: first)
  also have "\<dots> = Some (Inr (\<lparr>autoResize = True,
                     shelves = [\<lparr>shelf_y = 0, shelf_w = 20, shelf_h = 10, shelf_x = 10, shelf_free = 10\<rparr>],
                     freebins = [], stats = [10 \<mapsto> Num 1], bins = [''1'' \<mapsto> 0], maxId = 1,
                     sp_w = 20, sp_h = 20,
                     heap = [\<lparr>bin_id = IdNum 1, bin_x = 0, bin_y = 0, bin_w = 10, bin_h = 10,
                               maxw = 10, maxh = 10, refcount = 1\<rparr>]\<rparr>, Some 0))"
    by (subst packOne.simps) (simp add: second)
  finally show ?thesis
    using grow by (simp add: getBin_def key_of_int_def digits.simps digit_char_def)
qed

subsection \<open>Shrinking twice\<close>

lemma shrink_loop_resized:
  "shrink_loop (map (\<lambda>sh. Shelf_resize sh v) xs) w2 h2 = shrink_loop xs w2 h2"
  by (induction xs arbitrary: w2 h2) (auto simp: Shelf_resize_def)

lemma resize_resize_same:
  "resize (resize s v u) v u = resize s v u"
  by (simp add: resize_def Shelf_resize_def comp_def)

text \<open>
  C8. \<open>shrink\<close> is idempotent: in every packer state (reachable or not), a second
  \<open>shrink\<close> right after a first one changes nothing; in particular the container's
  width and height are those of the first call.
\<close>

theorem shrink_idempotent:
  "shrink (shrink s) = shrink s
   \<and> sp_w (shrink (shrink s)) = sp_w (shrink s) \<and> sp_h (shrink (shrink s)) = sp_h (shrink s)"
proof -
  have "shrink (shrink s) = shrink s"
  proof (cases "shelves s")
    case Nil
    then show ?thesis by (simp add: shrink_def)
  next
    case (Cons sh rest)
    obtain w2 h2 where wh: "shrink_loop (shelves s) 0 0 = (w2, h2)"
      by (cases "shrink_loop (shelves s) 0 0")
    have first: "shrink s = resize s w2 h2"
      using Cons wh by (simp add: shrink_def)
    have nonempty: "length (shelves (resize s w2 h2)) > 0"
      using Cons by (simp add: resize_def)
    have again: "shrink_loop (shelves (resize s w2 h2)) 0 0 = (w2, h2)"
      using wh by (simp add: resize_def shrink_loop_resized)
    have "shrink (resize s w2 h2) = resize (resize s w2 h2) w2 h2"
      using nonempty again by (simp add: shrink_def)
    then show ?thesis
      using first by (simp add: resize_resize_same)
  qed
  then show ?thesis by simp
qed

end
